theory Spec2Isabelle
  imports Main
begin

section \<open>The program model: SSA functions and the call graph\<close>

text \<open>
  Objects that the Go program reaches through pointers live in a store that is indexed by
  addresses. A nullable pointer is an \<open>addr option\<close>, with \<open>None\<close> for \<open>nil\<close>.
\<close>

type_synonym addr = nat

text \<open>
  The dynamic type of \<open>c.Call.Value\<close>: either a \<open>*ssa.Builtin\<close>, which has a name,
  or any other kind of value.
\<close>

datatype val = Builtin string | NonBuiltin

text \<open>
  \<open>*ssa.Panic\<close>: the function that holds the instruction (\<open>p.Parent()\<close>, the address
  of an \<open>ssa.Function\<close>) and its source position (\<open>p.Pos()\<close>).
\<close>

record PanicInstr =
  Parent :: addr
  Pos :: nat

text \<open>
  The instructions of a basic block, by dynamic type. \<open>Call\<close>, \<open>Defer\<close> and \<open>Go\<close> carry
  the value that is called.
\<close>

datatype instr = Call val | Defer val | Go val | Panic PanicInstr | OtherInstr

record BasicBlock =
  Instrs :: "instr list"

record Function =
  Blocks :: "BasicBlock list"

text \<open>
  \<open>Edge.Site\<close> is an interface value: \<open>nil\<close> (\<open>None\<close>), or a pointer to a \<open>Call\<close>, a
  \<open>Go\<close> or a \<open>Defer\<close> instruction, given here with the address of that instruction.
\<close>

datatype site = PCall addr | PGo addr | PDefer addr

text \<open>
  \<open>callgraph.Edge\<close>. The code tests \<open>Caller\<close> against \<open>nil\<close> before it is dereferenced,
  so it is nullable here; \<open>Callee\<close> is dereferenced unchecked (\<open>f.Func\<close> in
  \<open>allrecovers\<close>), and \<open>callgraph.AddEdge\<close> always stores a node there, so it is an
  address.
\<close>

record Edge =
  Caller :: "addr option"
  Site :: "site option"
  Callee :: addr

text \<open>\<open>callgraph.Node\<close>; \<open>Func\<close> is the function that the node points to.\<close>

record Node =
  Func :: Function
  In :: "Edge list"
  Out :: "Edge list"

text \<open>
  \<open>callgraph.Graph\<close>: \<open>Nodes\<close> maps the address of a function to its node; a key that
  is missing from a Go map reads as \<open>nil\<close>.
\<close>

record Graph =
  Root :: "addr option"
  Nodes :: "addr \<Rightarrow> addr option"

section \<open>hasRecover, allrecovers and findPanics\<close>

fun hasRecover_instrs :: "instr list \<Rightarrow> bool" where
  "hasRecover_instrs [] = False"
| "hasRecover_instrs (i # is) =
     (case i of
        Call v \<Rightarrow>
          (case v of
             Builtin name \<Rightarrow> if name = ''recover'' then True else hasRecover_instrs is
           | NonBuiltin \<Rightarrow> hasRecover_instrs is)
      | _ \<Rightarrow> hasRecover_instrs is)"

fun hasRecover_blocks :: "BasicBlock list \<Rightarrow> bool" where
  "hasRecover_blocks [] = False"
| "hasRecover_blocks (b # bs) =
     (if hasRecover_instrs (Instrs b) then True else hasRecover_blocks bs)"

definition hasRecover :: "Function \<Rightarrow> bool" where
  "hasRecover f = hasRecover_blocks (Blocks f)"

fun allrecovers :: "(addr \<Rightarrow> Node) \<Rightarrow> addr list \<Rightarrow> bool" where
  "allrecovers h [] = True"
| "allrecovers h (f # fs) =
     (if \<not> hasRecover (Func (h f)) then False else allrecovers h fs)"

fun findPanics_instrs :: "instr list \<Rightarrow> PanicInstr list \<Rightarrow> PanicInstr list" where
  "findPanics_instrs [] panics = panics"
| "findPanics_instrs (i # is) panics =
     (case i of
        Panic p \<Rightarrow> findPanics_instrs is (panics @ [p])
      | _ \<Rightarrow> findPanics_instrs is panics)"

fun findPanics_blocks :: "BasicBlock list \<Rightarrow> PanicInstr list \<Rightarrow> PanicInstr list" where
  "findPanics_blocks [] panics = panics"
| "findPanics_blocks (b # bs) panics =
     findPanics_blocks bs (findPanics_instrs (Instrs b) panics)"

fun findPanics_funcs :: "Function list \<Rightarrow> PanicInstr list \<Rightarrow> PanicInstr list" where
  "findPanics_funcs [] panics = panics"
| "findPanics_funcs (f # fs) panics =
     findPanics_funcs fs (findPanics_blocks (Blocks f) panics)"

text \<open>
  \<open>ssautil.AllFunctions\<close> is a library call; \<open>findPanics\<close> is given its result as the
  list of functions in the order in which the \<open>range\<close> over that map yields them.
\<close>

definition findPanics :: "Function list \<Rightarrow> PanicInstr list" where
  "findPanics allFunctions = findPanics_funcs allFunctions []"

text \<open>The \<open>Panic\<close> instructions of a block, in the order of the block.\<close>

definition panics_of_instrs :: "instr list \<Rightarrow> PanicInstr list" where
  "panics_of_instrs is = concat (map (\<lambda>i. case i of Panic p \<Rightarrow> [p] | _ \<Rightarrow> []) is)"

section \<open>The boundary classifier: end\<close>

text \<open>
  The first loop of \<open>end\<close>: \<open>defers[dn] = append(defers[dn], o.Callee)\<close> for every
  outgoing edge whose site is a \<open>*ssa.Defer\<close>.
\<close>

fun collect_defers :: "Edge list \<Rightarrow> (addr \<rightharpoonup> addr list) \<Rightarrow> (addr \<rightharpoonup> addr list)" where
  "collect_defers [] defers = defers"
| "collect_defers (oe # oes) defers =
     (case Site oe of
        Some (PDefer dn) \<Rightarrow>
          collect_defers oes
            (defers(dn \<mapsto> (case defers dn of None \<Rightarrow> [] | Some cs \<Rightarrow> cs) @ [Callee oe]))
      | _ \<Rightarrow> collect_defers oes defers)"

text \<open>
  The second loop, \<open>for _, e := range defers\<close>. Go leaves the order of a \<open>range\<close> over a
  map open, so the loop gets the keys in the order \<open>ks\<close> of this run.
\<close>

fun range_defers :: "(addr \<Rightarrow> Node) \<Rightarrow> addr list \<Rightarrow> (addr \<rightharpoonup> addr list) \<Rightarrow> bool" where
  "range_defers h [] defers = False"
| "range_defers h (k # ks) defers =
     (case defers k of
        None \<Rightarrow> range_defers h ks defers
      | Some e \<Rightarrow> if allrecovers h e then True else range_defers h ks defers)"

fun range_In_go :: "Edge list \<Rightarrow> bool" where
  "range_In_go [] = False"
| "range_In_go (ie # ies) =
     (case Site ie of Some (PGo g) \<Rightarrow> True | _ \<Rightarrow> range_In_go ies)"

text \<open>
  \<open>end(root, n)\<close> returns \<open>(isend, isdeadend)\<close>. \<open>ro a\<close> is the order in which this run
  enumerates the keys of the \<open>defers\<close> map of the node at \<open>a\<close>.
\<close>

definition end' :: "(addr \<Rightarrow> Node) \<Rightarrow> (addr \<Rightarrow> addr list) \<Rightarrow> addr option \<Rightarrow> addr option \<Rightarrow> bool \<times> bool" where
  "end' h ro root n =
     (case n of
        None \<Rightarrow> (True, False)
      | Some a \<Rightarrow>
          (let defers = collect_defers (Out (h a)) Map.empty in
           if range_defers h (ro a) defers then (False, True)
           else if n = root then (True, False)
           else if range_In_go (In (h a)) then (True, False)
           else (False, False)))"

section \<open>The backward search: pathToRoot\<close>

datatype error = OutOfFuel | RuntimePanic

text \<open>
  The variables that the closure \<open>search\<close> shares with \<open>pathToRoot\<close>: \<open>stack\<close> and
  \<open>seen\<close>. \<open>seen\<close> holds the keys that were set to \<open>true\<close>, the latest first.
\<close>

type_synonym sstate = "Edge list \<times> addr option list"

text \<open>
  What one call of \<open>search\<close> gives: the slice that it returns (\<open>None\<close> for \<open>nil\<close>) and
  the shared variables after the call.
\<close>

type_synonym sresult = "error + (Edge list option \<times> sstate)"

text \<open>
  The loop \<open>for _, e := range n.In\<close> of \<open>search\<close>, over the recursive call \<open>srch\<close>.
  \<open>stack[:len(stack)-1]\<close> panics on an empty stack.
\<close>

fun range_In :: "(addr option \<Rightarrow> sstate \<Rightarrow> sresult) \<Rightarrow> Edge list \<Rightarrow> sstate \<Rightarrow> sresult" where
  "range_In srch [] st = Inr (None, st)"
| "range_In srch (e # es) (stack, seen) =
     (case srch (Caller e) (stack @ [e], seen) of
        Inl err \<Rightarrow> Inl err
      | Inr (found, (stack', seen')) \<Rightarrow>
          (case found of
             Some w \<Rightarrow> Inr (Some stack', (stack', seen'))
           | None \<Rightarrow>
               if stack' = [] then Inl RuntimePanic
               else range_In srch es (butlast stack', seen')))"

text \<open>
  \<open>search\<close>, with the depth of the recursion limited by the first argument. \<open>n.In\<close>
  panics when \<open>n\<close> is \<open>nil\<close>.
\<close>

fun search :: "nat \<Rightarrow> (addr \<Rightarrow> Node) \<Rightarrow> (addr \<Rightarrow> addr list) \<Rightarrow> addr option \<Rightarrow> addr option \<Rightarrow> sstate \<Rightarrow> sresult" where
  "search 0 h ro root n st = Inl OutOfFuel"
| "search (Suc fuel) h ro root n (stack, seen) =
     (if n \<notin> set seen then
        (let seen1 = n # seen; (isend, deadend) = end' h ro root n in
         if deadend then Inr (None, (stack, seen1))
         else if isend then Inr (Some stack, (stack, seen1))
         else
           (case n of
              None \<Rightarrow> Inl RuntimePanic
            | Some a \<Rightarrow>
                range_In (\<lambda>m st. search fuel h ro root m st) (In (h a)) (stack, seen1)))
      else Inr (None, (stack, seen)))"

definition pathToRoot :: "nat \<Rightarrow> (addr \<Rightarrow> Node) \<Rightarrow> (addr \<Rightarrow> addr list) \<Rightarrow> PanicInstr \<Rightarrow> Graph \<Rightarrow> error + Edge list option" where
  "pathToRoot fuel h ro p cg =
     (let panicfunc = Nodes cg (Parent p) in
      case search fuel h ro (Root cg) panicfunc ([], []) of
        Inl err \<Rightarrow> Inl err
      | Inr (found, st) \<Rightarrow> Inr found)"

section \<open>The loop of main\<close>

text \<open>\<open>len\<close> of a slice; a \<open>nil\<close> slice has length 0.\<close>

definition len :: "'a list option \<Rightarrow> nat" where
  "len s = (case s of None \<Rightarrow> 0 | Some xs \<Rightarrow> length xs)"

text \<open>The elements that a \<open>range\<close> over a slice yields; a \<open>nil\<close> slice yields none.\<close>

definition elems :: "'a list option \<Rightarrow> 'a list" where
  "elems s = (case s of None \<Rightarrow> [] | Some xs \<Rightarrow> xs)"

text \<open>
  \<open>for _, p := range panics\<close> in \<open>main\<close>: the panics for which a "reaches root" report
  is printed, each with the edges that are printed below it.
\<close>

fun range_panics :: "nat \<Rightarrow> (addr \<Rightarrow> Node) \<Rightarrow> (addr \<Rightarrow> addr list) \<Rightarrow> Graph \<Rightarrow> PanicInstr list \<Rightarrow> error + (PanicInstr \<times> Edge list) list" where
  "range_panics fuel h ro cg [] = Inr []"
| "range_panics fuel h ro cg (p # ps) =
     (case pathToRoot fuel h ro p cg of
        Inl err \<Rightarrow> Inl err
      | Inr path \<Rightarrow>
          (case range_panics fuel h ro cg ps of
             Inl err \<Rightarrow> Inl err
           | Inr out \<Rightarrow>
               if len path \<noteq> 0 then Inr ((p, elems path) # out) else Inr out))"

section \<open>Measures and predicates that the properties are stated with\<close>

text \<open>
  The number of calls of \<open>search\<close> that one call causes, itself included. It follows
  \<open>search\<close> and \<open>range_In\<close> branch by branch and counts 1 for every call.
\<close>

fun range_In_calls :: "(addr option \<Rightarrow> sstate \<Rightarrow> sresult) \<Rightarrow> (addr option \<Rightarrow> sstate \<Rightarrow> nat) \<Rightarrow> Edge list \<Rightarrow> sstate \<Rightarrow> nat" where
  "range_In_calls srch calls [] st = 0"
| "range_In_calls srch calls (e # es) (stack, seen) =
     calls (Caller e) (stack @ [e], seen) +
     (case srch (Caller e) (stack @ [e], seen) of
        Inl err \<Rightarrow> 0
      | Inr (found, (stack', seen')) \<Rightarrow>
          (case found of
             Some w \<Rightarrow> 0
           | None \<Rightarrow>
               if stack' = [] then 0
               else range_In_calls srch calls es (butlast stack', seen')))"

fun search_calls :: "nat \<Rightarrow> (addr \<Rightarrow> Node) \<Rightarrow> (addr \<Rightarrow> addr list) \<Rightarrow> addr option \<Rightarrow> addr option \<Rightarrow> sstate \<Rightarrow> nat" where
  "search_calls 0 h ro root n st = 1"
| "search_calls (Suc fuel) h ro root n (stack, seen) =
     Suc (if n \<notin> set seen then
        (let seen1 = n # seen; (isend, deadend) = end' h ro root n in
         if deadend then 0
         else if isend then 0
         else
           (case n of
              None \<Rightarrow> 0
            | Some a \<Rightarrow>
                range_In_calls (\<lambda>m st. search fuel h ro root m st)
                  (\<lambda>m st. search_calls fuel h ro root m st) (In (h a)) (stack, seen1)))
      else 0)"

text \<open>The number of incoming edges of a node; \<open>nil\<close> has none.\<close>

definition indegree :: "(addr \<Rightarrow> Node) \<Rightarrow> addr option \<Rightarrow> nat" where
  "indegree h n = (case n of None \<Rightarrow> 0 | Some a \<Rightarrow> length (In (h a)))"

text \<open>The incoming edges of the nodes that were added to \<open>seen\<close> to make it \<open>seen'\<close>.\<close>

definition new_indegrees :: "(addr \<Rightarrow> Node) \<Rightarrow> addr option list \<Rightarrow> addr option list \<Rightarrow> nat" where
  "new_indegrees h seen seen' =
     sum_list (map (indegree h) (take (length seen' - length seen) seen'))"

text \<open>\<open>seen'\<close> is \<open>seen\<close> with new, pairwise distinct keys added.\<close>

definition grows :: "'a list \<Rightarrow> 'a list \<Rightarrow> bool" where
  "grows seen seen' = (\<exists>new. seen' = new @ seen \<and> distinct new \<and> set new \<inter> set seen = {})"

text \<open>
  A set of node pointers that holds, with every node, the callers of its incoming edges:
  the nodes of a call graph.
\<close>

definition closed_under_callers :: "(addr \<Rightarrow> Node) \<Rightarrow> addr option set \<Rightarrow> bool" where
  "closed_under_callers h U = (\<forall>a. Some a \<in> U \<longrightarrow> (\<forall>e\<in>set (In (h a)). Caller e \<in> U))"

text \<open>
  The deferred-call group of a \<open>Defer\<close> instruction in the words of the specification:
  the callees of the outgoing edges of the node whose site is that instruction.
\<close>

definition defer_group :: "Node \<Rightarrow> addr \<Rightarrow> addr list" where
  "defer_group nd dn = map Callee (filter (\<lambda>oe. Site oe = Some (PDefer dn)) (Out nd))"

text \<open>The \<open>Defer\<close> instructions that are the site of an outgoing edge of the node.\<close>

definition defer_sites :: "Node \<Rightarrow> addr list" where
  "defer_sites nd =
     concat (map (\<lambda>oe. case Site oe of Some (PDefer dn) \<Rightarrow> [dn] | _ \<Rightarrow> []) (Out nd))"

text \<open>
  The node suppresses without condition, in the words of the specification: it has a
  deferred-call group all of whose callees satisfy \<open>hasRecover\<close>.
\<close>

definition suppresses :: "(addr \<Rightarrow> Node) \<Rightarrow> Node \<Rightarrow> bool" where
  "suppresses h nd =
     list_ex (\<lambda>dn. list_all (\<lambda>c. hasRecover (Func (h c))) (defer_group nd dn)) (defer_sites nd)"

text \<open>
  What Go promises about \<open>range\<close> over a map: \<open>ro a\<close> yields the keys of the \<open>defers\<close>
  map of the node at \<open>a\<close>, in whatever order.
\<close>

definition enumerates_defers :: "(addr \<Rightarrow> Node) \<Rightarrow> (addr \<Rightarrow> addr list) \<Rightarrow> addr \<Rightarrow> bool" where
  "enumerates_defers h ro a = (set (ro a) = dom (collect_defers (Out (h a)) Map.empty))"

text \<open>
  \<open>walk h ro root n w\<close>: \<open>w\<close> leads from \<open>n\<close> backwards along incoming edges, through
  nodes that \<open>end\<close> lets the search pass, to a node that \<open>end\<close> accepts.
\<close>

fun walk :: "(addr \<Rightarrow> Node) \<Rightarrow> (addr \<Rightarrow> addr list) \<Rightarrow> addr option \<Rightarrow> addr option \<Rightarrow> Edge list \<Rightarrow> bool" where
  "walk h ro root n [] = (end' h ro root n = (True, False))"
| "walk h ro root n (e # es) =
     (case n of
        None \<Rightarrow> False
      | Some a \<Rightarrow>
          end' h ro root n = (False, False) \<and> e \<in> set (In (h a)) \<and>
          walk h ro root (Caller e) es)"

text \<open>The node at which a path that starts at \<open>n\<close> stops.\<close>

fun stops_at :: "addr option \<Rightarrow> Edge list \<Rightarrow> addr option" where
  "stops_at n [] = n"
| "stops_at n (e # es) = stops_at (Caller e) es"

text \<open>What a call of \<open>search\<close> at \<open>n\<close> in state \<open>st\<close> may give.\<close>

definition search_post :: "(addr \<Rightarrow> Node) \<Rightarrow> (addr \<Rightarrow> addr list) \<Rightarrow> addr option \<Rightarrow> addr option \<Rightarrow> sstate \<Rightarrow> sresult \<Rightarrow> bool" where
  "search_post h ro root n st res =
     (case res of
        Inl err \<Rightarrow> err = OutOfFuel
      | Inr (found, (stack', seen')) \<Rightarrow>
          grows (snd st) seen' \<and> n \<in> set seen' \<and>
          (case found of
             None \<Rightarrow> stack' = fst st
           | Some w \<Rightarrow> w = stack' \<and> (\<exists>ext. stack' = fst st @ ext \<and> walk h ro root n ext)))"

text \<open>What the loop over \<open>n.In\<close> may give.\<close>

definition range_post :: "(addr \<Rightarrow> Node) \<Rightarrow> (addr \<Rightarrow> addr list) \<Rightarrow> addr option \<Rightarrow> Edge list \<Rightarrow> sstate \<Rightarrow> sresult \<Rightarrow> bool" where
  "range_post h ro root es st res =
     (case res of
        Inl err \<Rightarrow> err = OutOfFuel
      | Inr (found, (stack', seen')) \<Rightarrow>
          grows (snd st) seen' \<and>
          (case found of
             None \<Rightarrow> stack' = fst st
           | Some w \<Rightarrow> w = stack' \<and>
               (\<exists>e\<in>set es. \<exists>ext. stack' = fst st @ e # ext \<and> walk h ro root (Caller e) ext)))"

section \<open>A call graph to run the code on\<close>

text \<open>
  Node 0 is the synthetic root, which calls \<open>main\<close> (node 1) through an edge without a
  site. \<open>main\<close> starts \<open>A\<close> (2) and \<open>C\<close> (4) with \<open>go\<close> and calls \<open>F\<close> (8). \<open>A\<close> calls
  \<open>B\<close> (3), which calls itself and \<open>E\<close> (6). \<open>C\<close> defers \<open>R\<close> (5), which calls
  \<open>recover\<close>, and \<open>D\<close> (7), whose body is \<open>defer recover()\<close>. \<open>F\<close> defers \<open>D\<close> only.
  The function of node \<open>i\<close> is at address \<open>100 + i\<close>.
\<close>

definition e01 :: Edge where "e01 = \<lparr>Caller = Some 0, Site = None, Callee = 1\<rparr>"
definition e12 :: Edge where "e12 = \<lparr>Caller = Some 1, Site = Some (PGo 20), Callee = 2\<rparr>"
definition e14 :: Edge where "e14 = \<lparr>Caller = Some 1, Site = Some (PGo 21), Callee = 4\<rparr>"
definition e18 :: Edge where "e18 = \<lparr>Caller = Some 1, Site = Some (PCall 24), Callee = 8\<rparr>"
definition e23 :: Edge where "e23 = \<lparr>Caller = Some 2, Site = Some (PCall 22), Callee = 3\<rparr>"
definition e33 :: Edge where "e33 = \<lparr>Caller = Some 3, Site = Some (PCall 23), Callee = 3\<rparr>"
definition e36 :: Edge where "e36 = \<lparr>Caller = Some 3, Site = Some (PCall 26), Callee = 6\<rparr>"
definition e45 :: Edge where "e45 = \<lparr>Caller = Some 4, Site = Some (PDefer 30), Callee = 5\<rparr>"
definition e47 :: Edge where "e47 = \<lparr>Caller = Some 4, Site = Some (PDefer 31), Callee = 7\<rparr>"
definition e87 :: Edge where "e87 = \<lparr>Caller = Some 8, Site = Some (PDefer 32), Callee = 7\<rparr>"

definition fn :: "instr list \<Rightarrow> Function" where
  "fn is = \<lparr>Blocks = [\<lparr>Instrs = is\<rparr>]\<rparr>"

definition ex_heap :: "addr \<Rightarrow> Node" where
  "ex_heap a =
     (if a = 0 then \<lparr>Func = \<lparr>Blocks = []\<rparr>, In = [], Out = [e01]\<rparr>
      else if a = 1 then
        \<lparr>Func = fn [Go NonBuiltin, Go NonBuiltin, Call NonBuiltin, Panic \<lparr>Parent = 101, Pos = 1\<rparr>],
         In = [e01], Out = [e12, e14, e18]\<rparr>
      else if a = 2 then \<lparr>Func = fn [Call NonBuiltin], In = [e12], Out = [e23]\<rparr>
      else if a = 3 then
        \<lparr>Func = fn [Call NonBuiltin, Call NonBuiltin, Panic \<lparr>Parent = 103, Pos = 3\<rparr>],
         In = [e33, e23], Out = [e33, e36]\<rparr>
      else if a = 4 then
        \<lparr>Func = fn [Defer NonBuiltin, Defer NonBuiltin, Panic \<lparr>Parent = 104, Pos = 4\<rparr>],
         In = [e14], Out = [e45, e47]\<rparr>
      else if a = 5 then \<lparr>Func = fn [Call (Builtin ''recover'')], In = [e45], Out = []\<rparr>
      else if a = 6 then \<lparr>Func = fn [Panic \<lparr>Parent = 106, Pos = 6\<rparr>], In = [e36], Out = []\<rparr>
      else if a = 7 then
        \<lparr>Func = fn [Defer (Builtin ''recover'')], In = [e47, e87], Out = []\<rparr>
      else if a = 8 then
        \<lparr>Func = fn [Defer NonBuiltin, Panic \<lparr>Parent = 108, Pos = 8\<rparr>], In = [e18], Out = [e87]\<rparr>
      else \<lparr>Func = \<lparr>Blocks = []\<rparr>, In = [], Out = []\<rparr>)"

definition ex_cg :: Graph where
  "ex_cg =
     \<lparr>Root = Some 0, Nodes = (\<lambda>f. if 100 \<le> f \<and> f \<le> 108 then Some (f - 100) else None)\<rparr>"

definition ex_nodes :: "addr option set" where
  "ex_nodes = Some ` {0..<9}"

text \<open>Two runs that enumerate the two keys of the \<open>defers\<close> map of \<open>C\<close> in opposite orders.\<close>

definition ex_ro :: "addr \<Rightarrow> addr list" where
  "ex_ro a = (if a = 4 then [30, 31] else if a = 8 then [32] else [])"

definition ex_ro' :: "addr \<Rightarrow> addr list" where
  "ex_ro' a = (if a = 4 then [31, 30] else if a = 8 then [32] else [])"




text \<open>
  A function whose only call of \<open>recover\<close> comes after a \<open>panic\<close>, in its second block.
\<close>

definition ex_late_recover :: Function where
  "ex_late_recover =
     \<lparr>Blocks = [\<lparr>Instrs = [OtherInstr, Panic \<lparr>Parent = 110, Pos = 2\<rparr>]\<rparr>,
                \<lparr>Instrs = [Panic \<lparr>Parent = 110, Pos = 5\<rparr>, Call (Builtin ''recover'')]\<rparr>]\<rparr>"

lemmas ex_defs = ex_heap_def ex_cg_def ex_ro_def ex_ro'_def fn_def ex_nodes_def
  e01_def e12_def e14_def e18_def e23_def e33_def e36_def e45_def e47_def e87_def

section \<open>Facts about hasRecover, allrecovers and findPanics\<close>

lemma hasRecover_instrs_iff: "hasRecover_instrs is \<longleftrightarrow> Call (Builtin ''recover'') \<in> set is"
  by (induction "is") (auto split: instr.splits val.splits)

lemma hasRecover_blocks_iff:
  "hasRecover_blocks bs \<longleftrightarrow> (\<exists>b\<in>set bs. Call (Builtin ''recover'') \<in> set (Instrs b))"
  by (induction bs) (auto simp: hasRecover_instrs_iff)

lemma allrecovers_iff: "allrecovers h e \<longleftrightarrow> (\<forall>f\<in>set e. hasRecover (Func (h f)))"
  by (induction e) auto

lemma findPanics_instrs_eq:
  "findPanics_instrs is panics = panics @ concat (map (\<lambda>i. case i of Panic p \<Rightarrow> [p] | _ \<Rightarrow> []) is)"
  by (induction "is" arbitrary: panics) (auto split: instr.splits)

lemma count_panics_of_instrs: "count_list (panics_of_instrs is) p = count_list is (Panic p)"
  by (induction "is") (auto simp: panics_of_instrs_def split: instr.splits)

lemma findPanics_blocks_eq:
  "findPanics_blocks bs panics = panics @ concat (map (\<lambda>b. panics_of_instrs (Instrs b)) bs)"
  by (induction bs arbitrary: panics) (auto simp: findPanics_instrs_eq panics_of_instrs_def)

lemma findPanics_funcs_eq:
  "findPanics_funcs fs panics =
     panics @ concat (map (\<lambda>f. concat (map (\<lambda>b. panics_of_instrs (Instrs b)) (Blocks f))) fs)"
  by (induction fs arbitrary: panics) (auto simp: findPanics_blocks_eq)

lemma count_list_concat: "count_list (concat xss) x = sum_list (map (\<lambda>xs. count_list xs x) xss)"
  by (induction xss) auto

lemma findPanics_count:
  "count_list (findPanics fs) p =
     (\<Sum>f\<leftarrow>fs. \<Sum>b\<leftarrow>Blocks f. count_list (Instrs b) (Panic p))"
  by (simp add: findPanics_def findPanics_funcs_eq count_list_concat comp_def count_panics_of_instrs)

lemma set_panics_of_instrs: "set (panics_of_instrs is) = {p. Panic p \<in> set is}"
  by (induction "is") (auto simp: panics_of_instrs_def split: instr.splits)

lemma findPanics_set:
  "set (findPanics fs) = {p. \<exists>f\<in>set fs. \<exists>b\<in>set (Blocks f). Panic p \<in> set (Instrs b)}"
  by (auto simp: findPanics_def findPanics_funcs_eq set_panics_of_instrs)

lemma collect_defers_lookup:
  "collect_defers oes m dn =
     (let new = map Callee (filter (\<lambda>oe. Site oe = Some (PDefer dn)) oes) in
      if new = [] then m dn else Some ((case m dn of None \<Rightarrow> [] | Some cs \<Rightarrow> cs) @ new))"
  by (induction oes arbitrary: m) (auto simp: Let_def split: option.splits site.splits)

lemma collect_defers_empty:
  "collect_defers (Out nd) Map.empty dn =
     (if defer_group nd dn = [] then None else Some (defer_group nd dn))"
  by (simp add: collect_defers_lookup defer_group_def Let_def)

lemma range_defers_iff:
  "range_defers h ks m \<longleftrightarrow> (\<exists>k\<in>set ks. \<exists>e. m k = Some e \<and> allrecovers h e)"
  by (induction ks) (auto split: option.splits)

section \<open>Facts about end\<close>

lemma defer_group_empty_iff: "defer_group nd dn = [] \<longleftrightarrow> dn \<notin> set (defer_sites nd)"
  by (auto simp: defer_group_def defer_sites_def filter_empty_conv split: option.splits site.splits)

lemma dom_collect_defers: "dom (collect_defers (Out nd) Map.empty) = set (defer_sites nd)"
  by (auto simp: collect_defers_empty defer_group_empty_iff dom_def)

lemma suppresses_iff:
  "suppresses h nd \<longleftrightarrow>
     (\<exists>dn. defer_group nd dn \<noteq> [] \<and> (\<forall>c\<in>set (defer_group nd dn). hasRecover (Func (h c))))"
  by (auto simp: suppresses_def list_ex_iff list_all_iff defer_group_empty_iff)

lemma range_defers_suppresses:
  "range_defers h ks (collect_defers (Out nd) Map.empty) \<Longrightarrow> suppresses h nd"
  by (auto simp: range_defers_iff collect_defers_empty suppresses_iff allrecovers_iff split: if_splits)

lemma suppresses_range_defers:
  "suppresses h nd \<Longrightarrow> set ks = dom (collect_defers (Out nd) Map.empty) \<Longrightarrow>
     range_defers h ks (collect_defers (Out nd) Map.empty)"
  unfolding range_defers_iff suppresses_iff dom_collect_defers
  by (auto simp: collect_defers_empty allrecovers_iff defer_group_empty_iff)

lemma range_In_go_iff: "range_In_go ies \<longleftrightarrow> (\<exists>ie\<in>set ies. \<exists>g. Site ie = Some (PGo g))"
  by (induction ies) (auto split: option.splits site.splits)

lemma end'_nil: "end' h ro root None = (True, False)"
  by (simp add: end'_def)

lemma end'_deadend_suppresses: "snd (end' h ro root (Some a)) \<Longrightarrow> suppresses h (h a)"
  by (auto simp: end'_def Let_def dest: range_defers_suppresses split: if_splits)

lemma end'_suppressed:
  "enumerates_defers h ro a \<Longrightarrow> suppresses h (h a) \<Longrightarrow> end' h ro root (Some a) = (False, True)"
  by (simp add: end'_def enumerates_defers_def suppresses_range_defers)

lemma end'_unsuppressed:
  "\<not> suppresses h (h a) \<Longrightarrow>
     end' h ro root (Some a) =
       (if Some a = root then (True, False)
        else if range_In_go (In (h a)) then (True, False) else (False, False))"
  by (auto simp: end'_def Let_def dest: range_defers_suppresses)

lemma end'_order_independent:
  assumes "enumerates_defers h ro1 a" "enumerates_defers h ro2 a"
  shows "end' h ro1 root (Some a) = end' h ro2 root (Some a)"
proof (cases "suppresses h (h a)")
  case True
  with assms show ?thesis by (simp add: end'_suppressed)
next
  case False
  then show ?thesis by (simp add: end'_unsuppressed)
qed

section \<open>Facts about search\<close>

lemma grows_refl: "grows s s"
  by (simp add: grows_def)

lemma grows_trans: "grows a b \<Longrightarrow> grows b c \<Longrightarrow> grows a c"
  unfolding grows_def by auto

lemma grows_Cons: "x \<notin> set s \<Longrightarrow> grows s (x # s)"
  unfolding grows_def by (rule exI[of _ "[x]"]) simp

lemma grows_subset: "grows a b \<Longrightarrow> set a \<subseteq> set b"
  unfolding grows_def by auto

lemma grows_distinct: "grows a b \<Longrightarrow> distinct a \<Longrightarrow> distinct b"
  unfolding grows_def by auto

lemma range_In_post:
  assumes srch: "\<And>m st. search_post h ro root m st (srch m st)"
  shows "range_post h ro root es st (range_In srch es st)"
proof (induction es arbitrary: st)
  case Nil
  show ?case by (cases st) (simp add: range_post_def grows_refl)
next
  case (Cons e es)
  obtain stack seen where st: "st = (stack, seen)" by (cases st)
  have p: "search_post h ro root (Caller e) (stack @ [e], seen) (srch (Caller e) (stack @ [e], seen))"
    by (rule srch)
  show ?case
  proof (cases "srch (Caller e) (stack @ [e], seen)")
    case (Inl err)
    with p show ?thesis by (simp add: st range_post_def search_post_def)
  next
    case (Inr r)
    obtain found stack' seen' where r: "r = (found, (stack', seen'))" by (cases r) auto
    show ?thesis
    proof (cases found)
      case None
      from p have g: "grows seen seen'" and s: "stack' = stack @ [e]"
        by (simp_all add: Inr r None search_post_def)
      have ih: "range_post h ro root es (stack, seen') (range_In srch es (stack, seen'))"
        by (rule Cons.IH)
      have "range_In srch (e # es) st = range_In srch es (stack, seen')"
        by (simp add: st Inr r None s)
      with ih g show ?thesis
        by (auto simp: range_post_def st split: sum.splits option.splits intro: grows_trans)
    next
      case (Some w)
      from p show ?thesis
        by (auto simp: st Inr r Some search_post_def range_post_def)
    qed
  qed
qed

lemma search_post: "search_post h ro root n st (search fuel h ro root n st)"
proof (induction fuel arbitrary: n st)
  case 0
  show ?case by (simp add: search_post_def)
next
  case (Suc fuel)
  obtain stack seen where st: "st = (stack, seen)" by (cases st)
  show ?case
  proof (cases "n \<in> set seen")
    case True
    then show ?thesis by (simp add: st search_post_def grows_refl)
  next
    case False
    obtain isend deadend where e: "end' h ro root n = (isend, deadend)" by (cases "end' h ro root n")
    show ?thesis
    proof (cases deadend)
      case True
      with False e show ?thesis by (simp add: st search_post_def grows_Cons)
    next
      case nd: False
      show ?thesis
      proof (cases isend)
        case True
        with False e nd show ?thesis by (simp add: st search_post_def grows_Cons)
      next
        case ne: False
        have "n \<noteq> None" using e ne by (cases n) (auto simp: end'_def)
        then obtain a where a: "n = Some a" by auto
        have r: "range_post h ro root (In (h a)) (stack, n # seen)
                   (range_In (\<lambda>m st. search fuel h ro root m st) (In (h a)) (stack, n # seen))"
          by (rule range_In_post) (rule Suc.IH)
        have eq: "search (Suc fuel) h ro root n st =
                    range_In (\<lambda>m st. search fuel h ro root m st) (In (h a)) (stack, n # seen)"
          using False e nd ne a by (simp add: st)
        have g: "grows seen (n # seen)" using False by (rule grows_Cons)
        show ?thesis
          using r g e nd ne a unfolding eq
          apply (auto simp: range_post_def search_post_def st split: sum.splits option.splits
              intro: grows_trans dest: grows_subset)
          done
      qed
    qed
  qed
qed

lemma range_In_returns:
  assumes post: "\<And>m st. search_post h ro root m st (srch m st)"
    and ret: "\<And>m stack seen. m \<in> U \<Longrightarrow> P seen \<Longrightarrow> \<exists>r. srch m (stack, seen) = Inr r"
    and mono: "\<And>s s'. P s \<Longrightarrow> grows s s' \<Longrightarrow> P s'"
  shows "\<forall>e\<in>set es. Caller e \<in> U \<Longrightarrow> P seen \<Longrightarrow> \<exists>r. range_In srch es (stack, seen) = Inr r"
proof (induction es arbitrary: stack seen)
  case Nil
  show ?case by simp
next
  case (Cons e es)
  from Cons.prems have "Caller e \<in> U" by simp
  with ret Cons.prems(2) obtain r where r: "srch (Caller e) (stack @ [e], seen) = Inr r" by blast
  obtain found stack' seen' where rr: "r = (found, (stack', seen'))" by (cases r) auto
  have p: "search_post h ro root (Caller e) (stack @ [e], seen) (srch (Caller e) (stack @ [e], seen))"
    by (rule post)
  show ?case
  proof (cases found)
    case None
    from p have g: "grows seen seen'" and s: "stack' = stack @ [e]"
      by (simp_all add: r rr None search_post_def)
    have "P seen'" using Cons.prems(2) g by (rule mono)
    with Cons.IH[of seen' stack] Cons.prems(1) have "\<exists>r'. range_In srch es (stack, seen') = Inr r'"
      by simp
    then show ?thesis by (simp add: r rr None s)
  next
    case (Some w)
    then show ?thesis by (simp add: r rr)
  qed
qed

lemma card_Diff_grows:
  assumes "finite U" "grows s s'"
  shows "card (U - set s') \<le> card (U - set s)"
proof -
  have "U - set s' \<subseteq> U - set s" using grows_subset[OF assms(2)] by auto
  then show ?thesis using assms(1) by (simp add: card_mono)
qed

lemma search_returns:
  assumes fin: "finite U" and cl: "closed_under_callers h U"
  shows "n \<in> U \<Longrightarrow> card (U - set seen) < fuel \<Longrightarrow> \<exists>r. search fuel h ro root n (stack, seen) = Inr r"
proof (induction fuel arbitrary: n stack seen)
  case 0
  then show ?case by simp
next
  case (Suc fuel)
  show ?case
  proof (cases "n \<notin> set seen \<and> end' h ro root n = (False, False)")
    case False
    then show ?thesis by (cases "end' h ro root n") (auto simp: Let_def)
  next
    case True
    then have "n \<noteq> None" by (cases n) (auto simp: end'_def)
    then obtain a where a: "n = Some a" by auto
    have lt: "card (U - set (n # seen)) < card (U - set seen)"
    proof (rule psubset_card_mono)
      show "finite (U - set seen)" using fin by simp
      show "U - set (n # seen) \<subset> U - set seen" using True Suc.prems(1) by auto
    qed
    have callers: "\<forall>e\<in>set (In (h a)). Caller e \<in> U"
      using cl Suc.prems(1) a by (auto simp: closed_under_callers_def)
    have "\<exists>r. range_In (\<lambda>m st. search fuel h ro root m st) (In (h a)) (stack, n # seen) = Inr r"
    proof (rule range_In_returns[where P = "\<lambda>s. card (U - set s) < fuel" and U = U and h = h and ro = ro and root = root])
      show "\<And>m st. search_post h ro root m st (search fuel h ro root m st)" by (rule search_post)
      show "\<And>m stack seen. m \<in> U \<Longrightarrow> card (U - set seen) < fuel \<Longrightarrow> \<exists>r. search fuel h ro root m (stack, seen) = Inr r"
        by (rule Suc.IH)
      show "\<And>s s'. card (U - set s) < fuel \<Longrightarrow> grows s s' \<Longrightarrow> card (U - set s') < fuel"
        using card_Diff_grows[OF fin] by (meson le_less_trans)
      show "\<forall>e\<in>set (In (h a)). Caller e \<in> U" by (rule callers)
      show "card (U - set (n # seen)) < fuel" using lt Suc.prems(2) by simp
    qed
    then show ?thesis using True a by simp
  qed
qed

lemma range_In_mono:
  assumes "\<And>m st r. srch1 m st = Inr r \<Longrightarrow> srch2 m st = Inr r"
  shows "range_In srch1 es st = Inr r \<Longrightarrow> range_In srch2 es st = Inr r"
proof (induction es arbitrary: st)
  case Nil
  then show ?case by simp
next
  case (Cons e es)
  obtain stack seen where st: "st = (stack, seen)" by (cases st)
  from Cons.prems obtain r1 where r1: "srch1 (Caller e) (stack @ [e], seen) = Inr r1"
    by (cases "srch1 (Caller e) (stack @ [e], seen)") (auto simp: st)
  then have r2: "srch2 (Caller e) (stack @ [e], seen) = Inr r1" by (rule assms)
  show ?case using Cons.prems Cons.IH
    by (auto simp: st r1 r2 split: prod.splits option.splits if_splits)
qed

lemma search_fuel_Suc:
  "search fuel h ro root n st = Inr r \<Longrightarrow> search (Suc fuel) h ro root n st = Inr r"
proof (induction fuel arbitrary: n st r)
  case 0
  then show ?case by simp
next
  case (Suc fuel)
  obtain stack seen where st: "st = (stack, seen)" by (cases st)
  have m: "range_In (search (Suc fuel) h ro root) es st' = Inr r'"
    if "range_In (search fuel h ro root) es st' = Inr r'" for es st' r'
    by (rule range_In_mono[of "search fuel h ro root" "search (Suc fuel) h ro root", OF Suc.IH that])
  show ?case using Suc.prems m
    by (auto simp: st Let_def split: if_splits prod.splits option.splits)
qed

lemma search_fuel_mono:
  "search fuel h ro root n st = Inr r \<Longrightarrow> fuel \<le> fuel' \<Longrightarrow> search fuel' h ro root n st = Inr r"
  by (induction fuel' arbitrary:) (auto simp: le_Suc_eq dest: search_fuel_Suc)

lemma search_order_independent:
  assumes "\<And>a. enumerates_defers h ro1 a" "\<And>a. enumerates_defers h ro2 a"
  shows "search fuel h ro1 root n st = search fuel h ro2 root n st"
proof (induction fuel arbitrary: n st)
  case 0
  show ?case by simp
next
  case (Suc fuel)
  obtain stack seen where st: "st = (stack, seen)" by (cases st)
  have e: "end' h ro1 root n = end' h ro2 root n"
    by (cases n) (simp_all add: end'_nil end'_order_independent assms)
  have s: "search fuel h ro1 root = search fuel h ro2 root"
    by (intro ext) (rule Suc.IH)
  show ?case by (simp only: st search.simps e s)
qed

lemma walk_no_go: "walk h ro root n w \<Longrightarrow> e \<in> set w \<Longrightarrow> Site e \<noteq> Some (PGo g)"
proof (induction w arbitrary: n)
  case Nil
  then show ?case by simp
next
  case (Cons x w)
  from Cons.prems(1) obtain a where a: "n = Some a" and c: "end' h ro root n = (False, False)"
    and x: "x \<in> set (In (h a))" and w: "walk h ro root (Caller x) w"
    by (cases n) auto
  have "\<not> range_In_go (In (h a))" using c a by (auto simp: end'_def Let_def split: if_splits)
  then have "Site x \<noteq> Some (PGo g)" using x by (auto simp: range_In_go_iff)
  with Cons.IH[OF w] Cons.prems(2) show ?case by auto
qed

lemma walk_stops_at: "walk h ro root n w \<Longrightarrow> end' h ro root (stops_at n w) = (True, False)"
  by (induction w arbitrary: n) (auto split: option.splits)

lemma walk_chain:
  assumes wf: "\<And>a e. e \<in> set (In (h a)) \<Longrightarrow> Callee e = a"
  shows "walk h ro root n w \<Longrightarrow>
    (w \<noteq> [] \<longrightarrow> n = Some (Callee (w ! 0))) \<and>
    (\<forall>i. Suc i < length w \<longrightarrow> Caller (w ! i) = Some (Callee (w ! Suc i)))"
proof (induction w arbitrary: n)
  case Nil
  then show ?case by simp
next
  case (Cons x w)
  from Cons.prems obtain a where a: "n = Some a" and x: "x \<in> set (In (h a))"
    and w: "walk h ro root (Caller x) w"
    by (cases n) auto
  have ih: "(w \<noteq> [] \<longrightarrow> Caller x = Some (Callee (w ! 0))) \<and>
    (\<forall>i. Suc i < length w \<longrightarrow> Caller (w ! i) = Some (Callee (w ! Suc i)))"
    by (rule Cons.IH[OF w])
  have cx: "Callee x = a" using x by (rule wf)
  show ?case
  proof (intro conjI allI impI)
    show "n = Some (Callee ((x # w) ! 0))" using a cx by simp
  next
    fix i assume i: "Suc i < length (x # w)"
    show "Caller ((x # w) ! i) = Some (Callee ((x # w) ! Suc i))"
    proof (cases i)
      case 0
      with i ih show ?thesis by (cases w) auto
    next
      case (Suc j)
      with i ih show ?thesis by simp
    qed
  qed
qed

lemma search_found_walk:
  assumes "search fuel h ro root n (stack, seen) = Inr (Some w, st')"
  shows "\<exists>ext. w = stack @ ext \<and> walk h ro root n ext"
  using search_post[of h ro root n "(stack, seen)" fuel] assms
  by (cases st') (auto simp: search_post_def)

lemma range_In_seen_subset:
  assumes post: "\<And>m stack seen r. m \<in> U \<Longrightarrow> set seen \<subseteq> U \<Longrightarrow> srch m (stack, seen) = Inr r \<Longrightarrow> set (snd (snd r)) \<subseteq> U"
  shows "\<forall>e\<in>set es. Caller e \<in> U \<Longrightarrow> set seen \<subseteq> U \<Longrightarrow> range_In srch es (stack, seen) = Inr r \<Longrightarrow>
    set (snd (snd r)) \<subseteq> U"
proof (induction es arbitrary: stack seen)
  case Nil
  then show ?case by auto
next
  case (Cons e es)
  from Cons.prems(3) obtain r1 where r1: "srch (Caller e) (stack @ [e], seen) = Inr r1"
    by (cases "srch (Caller e) (stack @ [e], seen)") auto
  obtain found stack' seen' where rr: "r1 = (found, (stack', seen'))" by (cases r1) auto
  have s: "set seen' \<subseteq> U" using post[OF _ Cons.prems(2) r1] Cons.prems(1) by (simp add: rr)
  show ?case
  proof (cases found)
    case None
    with Cons.prems(3) have "range_In srch es (butlast stack', seen') = Inr r"
      by (simp add: r1 rr split: if_splits)
    with Cons.IH[OF _ s] Cons.prems(1) show ?thesis by simp
  next
    case (Some w)
    with Cons.prems(3) s show ?thesis by (auto simp: r1 rr)
  qed
qed

lemma search_seen_subset:
  assumes cl: "closed_under_callers h U"
  shows "n \<in> U \<Longrightarrow> set seen \<subseteq> U \<Longrightarrow> search fuel h ro root n (stack, seen) = Inr r \<Longrightarrow>
    set (snd (snd r)) \<subseteq> U"
proof (induction fuel arbitrary: n stack seen r)
  case 0
  then show ?case by simp
next
  case (Suc fuel)
  show ?case
  proof (cases "n \<notin> set seen \<and> end' h ro root n = (False, False)")
    case False
    with Suc.prems show ?thesis
      by (cases "end' h ro root n") (auto simp: Let_def split: if_splits)
  next
    case True
    then have "n \<noteq> None" by (cases n) (auto simp: end'_def)
    then obtain a where a: "n = Some a" by auto
    have callers: "\<forall>e\<in>set (In (h a)). Caller e \<in> U"
      using cl Suc.prems(1) a by (auto simp: closed_under_callers_def)
    have r: "range_In (search fuel h ro root) (In (h a)) (stack, n # seen) = Inr r"
      using Suc.prems(3) True a by simp
    have s: "set (n # seen) \<subseteq> U" using Suc.prems by simp
    show ?thesis
      by (rule range_In_seen_subset[where srch = "search fuel h ro root", OF Suc.IH callers s r])
  qed
qed

lemma new_indegrees_trans:
  "grows a b \<Longrightarrow> grows b c \<Longrightarrow> new_indegrees h a c = new_indegrees h b c + new_indegrees h a b"
  unfolding grows_def new_indegrees_def by auto

lemma new_indegrees_Cons: "new_indegrees h s (x # s) = indegree h x"
  by (simp add: new_indegrees_def)

lemma range_In_calls_bound:
  assumes post: "\<And>m st. search_post h ro root m st (srch m st)"
    and c: "\<And>m st r. srch m st = Inr r \<Longrightarrow> calls m st \<le> 1 + new_indegrees h (snd st) (snd (snd r))"
  shows "range_In srch es (stack, seen) = Inr r \<Longrightarrow>
    range_In_calls srch calls es (stack, seen) \<le> length es + new_indegrees h seen (snd (snd r))"
proof (induction es arbitrary: stack seen)
  case Nil
  then show ?case by simp
next
  case (Cons e es)
  from Cons.prems obtain r1 where r1: "srch (Caller e) (stack @ [e], seen) = Inr r1"
    by (cases "srch (Caller e) (stack @ [e], seen)") auto
  obtain found stack' seen' where rr: "r1 = (found, (stack', seen'))" by (cases r1) auto
  have p: "search_post h ro root (Caller e) (stack @ [e], seen) (srch (Caller e) (stack @ [e], seen))"
    by (rule post)
  have c1: "calls (Caller e) (stack @ [e], seen) \<le> 1 + new_indegrees h seen seen'"
    using c[OF r1] by (simp add: rr)
  show ?case
  proof (cases found)
    case None
    from p have g: "grows seen seen'" and s: "stack' = stack @ [e]"
      by (simp_all add: r1 rr None search_post_def)
    have rest: "range_In srch es (stack, seen') = Inr r"
      using Cons.prems by (simp add: r1 rr None s)
    have ih: "range_In_calls srch calls es (stack, seen') \<le> length es + new_indegrees h seen' (snd (snd r))"
      using rest by (rule Cons.IH)
    have "range_post h ro root es (stack, seen') (range_In srch es (stack, seen'))"
      using post by (rule range_In_post)
    then have g2: "grows seen' (snd (snd r))"
      by (auto simp: rest range_post_def split: prod.splits)
    have "new_indegrees h seen (snd (snd r)) = new_indegrees h seen' (snd (snd r)) + new_indegrees h seen seen'"
      using g g2 by (rule new_indegrees_trans)
    with ih c1 show ?thesis by (simp add: r1 rr None s)
  next
    case (Some w)
    with Cons.prems have "r = (Some stack', (stack', seen'))" by (simp add: r1 rr)
    with c1 show ?thesis by (simp add: r1 rr Some)
  qed
qed

lemma search_calls_bound:
  "search fuel h ro root n st = Inr r \<Longrightarrow>
     search_calls fuel h ro root n st \<le> 1 + new_indegrees h (snd st) (snd (snd r))"
proof (induction fuel arbitrary: n st r)
  case 0
  then show ?case by simp
next
  case (Suc fuel)
  obtain stack seen where st: "st = (stack, seen)" by (cases st)
  show ?case
  proof (cases "n \<notin> set seen \<and> end' h ro root n = (False, False)")
    case False
    then show ?thesis
      by (cases "end' h ro root n") (auto simp: st Let_def)
  next
    case True
    then have "n \<noteq> None" by (cases n) (auto simp: end'_def)
    then obtain a where a: "n = Some a" by auto
    have r: "range_In (search fuel h ro root) (In (h a)) (stack, n # seen) = Inr r"
      using Suc.prems True a by (simp add: st)
    have b: "range_In_calls (search fuel h ro root) (search_calls fuel h ro root) (In (h a)) (stack, n # seen)
             \<le> length (In (h a)) + new_indegrees h (n # seen) (snd (snd r))"
      using search_post Suc.IH r by (rule range_In_calls_bound)
    have "range_post h ro root (In (h a)) (stack, n # seen) (range_In (search fuel h ro root) (In (h a)) (stack, n # seen))"
      using search_post by (rule range_In_post)
    then have g2: "grows (n # seen) (snd (snd r))"
      by (auto simp: r range_post_def split: prod.splits)
    have g1: "grows seen (n # seen)" using True by (simp add: grows_Cons)
    have "new_indegrees h seen (snd (snd r)) = new_indegrees h (n # seen) (snd (snd r)) + indegree h n"
      using new_indegrees_trans[OF g1 g2] by (simp add: new_indegrees_Cons)
    with b show ?thesis using True a by (simp add: st indegree_def)
  qed
qed

lemma sum_list_indegree_le:
  assumes "finite U" "distinct xs" "set xs \<subseteq> U"
  shows "sum_list (map (indegree h) xs) \<le> (\<Sum>m\<in>U. indegree h m)"
proof -
  have "sum_list (map (indegree h) xs) = (\<Sum>m\<in>set xs. indegree h m)"
    using assms(2) by (simp add: sum_list_distinct_conv_sum_set)
  also have "\<dots> \<le> (\<Sum>m\<in>U. indegree h m)"
    using assms(1,3) by (simp add: sum_mono2)
  finally show ?thesis .
qed

lemma pathToRoot_search:
  "search fuel h ro (Root cg) (Nodes cg (Parent p)) ([], []) = Inr (found, st') \<Longrightarrow>
     pathToRoot fuel h ro p cg = Inr found"
  by (simp add: pathToRoot_def)

lemma pathToRoot_fuel_mono:
  assumes "pathToRoot k h ro p cg = Inr r" "k \<le> k'"
  shows "pathToRoot k' h ro p cg = Inr r"
proof -
  from assms(1) obtain st' where "search k h ro (Root cg) (Nodes cg (Parent p)) ([], []) = Inr (r, st')"
    by (auto simp: pathToRoot_def split: sum.splits)
  then have "search k' h ro (Root cg) (Nodes cg (Parent p)) ([], []) = Inr (r, st')"
    using assms(2) by (rule search_fuel_mono)
  then show ?thesis by (rule pathToRoot_search)
qed

section \<open>Facts about the loop of main\<close>

text \<open>
  When \<open>end\<close> accepts the node of the raise site itself, \<open>pathToRoot\<close> returns the stack
  before anything was pushed, and \<open>main\<close>, which tests the length of the path, prints
  nothing for the raise site. This is so for a raise site without a node, and also for
  one in the function of the root or in a function that was started with \<open>go\<close>.
\<close>

lemma pathToRoot_boundary_at_raise_site:
  assumes "end' h ro (Root cg) (Nodes cg (Parent p)) = (True, False)"
  shows "pathToRoot (Suc fuel) h ro p cg = Inr (Some [])"
  using assms by (simp add: pathToRoot_def)

lemma range_panics_boundary_at_raise_site:
  assumes "end' h ro (Root cg) (Nodes cg (Parent p)) = (True, False)"
  shows "range_panics (Suc fuel) h ro cg [p] = Inr []"
  using pathToRoot_boundary_at_raise_site[OF assms, of fuel] by (simp add: len_def)

section \<open>Facts about the example graph\<close>

lemma ex_enumerates: "enumerates_defers ex_heap ex_ro a"
  by (auto simp: enumerates_defers_def dom_collect_defers defer_sites_def ex_defs)

lemma ex_enumerates': "enumerates_defers ex_heap ex_ro' a"
  by (auto simp: enumerates_defers_def dom_collect_defers defer_sites_def ex_defs)

lemma ex_closed: "closed_under_callers ex_heap ex_nodes"
  by (auto simp: closed_under_callers_def ex_defs)

lemma ex_card: "finite ex_nodes \<and> card ex_nodes = 9"
  by (simp add: ex_nodes_def card_image)

lemma ex_In_Callee: "\<forall>a. \<forall>e\<in>set (In (ex_heap a)). Callee e = a"
  by (simp add: ex_defs)

section \<open>The boundary classifier\<close>

text \<open>
  Claim C1. Let \<open>a\<close> be a node, so not \<open>nil\<close>, and \<open>dn\<close> a \<open>Defer\<close> instruction whose
  deferred-call group at \<open>a\<close> is not empty and holds only callees for which \<open>hasRecover\<close>
  is true. Then \<open>end\<close> returns \<open>(false, true)\<close>, the dead end, whatever the root is and
  whatever the incoming edges of \<open>a\<close> are: the test comes before the tests for the root
  and for a \<open>go\<close> edge, so it also decides when \<open>a\<close> is the root or was started by \<open>go\<close>.
\<close>

theorem end_dead_end_wins:
  assumes "enumerates_defers h ro a"
    and "defer_group (h a) dn \<noteq> []"
    and "\<forall>c\<in>set (defer_group (h a) dn). hasRecover (Func (h c))"
  shows "end' h ro root (Some a) = (False, True)"
proof -
  have "suppresses h (h a)" using assms(2,3) by (auto simp: suppresses_iff)
  with assms(1) show ?thesis by (rule end'_suppressed)
qed

theorem end_dead_end_wins_witness:
  "defer_group (ex_heap 4) 30 = [5] \<and> hasRecover (Func (ex_heap 5)) \<and>
   Site e14 = Some (PGo 21) \<and> In (ex_heap 4) = [e14] \<and>
   end' ex_heap ex_ro (Some 4) (Some 4) = (False, True) \<and>
   end' ex_heap ex_ro' (Some 0) (Some 4) = (False, True)"
proof -
  have g: "defer_group (ex_heap 4) 30 = [5]" by (simp add: defer_group_def ex_defs)
  have r: "hasRecover (Func (ex_heap 5))" by (simp add: hasRecover_def ex_defs)
  have a: "\<forall>c\<in>set (defer_group (ex_heap 4) 30). hasRecover (Func (ex_heap c))"
    using g r by simp
  have n: "defer_group (ex_heap 4) 30 \<noteq> []" using g by simp
  have t1: "end' ex_heap ex_ro (Some 4) (Some 4) = (False, True)"
    by (rule end_dead_end_wins[of ex_heap ex_ro 4 30, OF ex_enumerates n a])
  have t2: "end' ex_heap ex_ro' (Some 0) (Some 4) = (False, True)"
    by (rule end_dead_end_wins[of ex_heap ex_ro' 4 30, OF ex_enumerates' n a])
  have i: "Site e14 = Some (PGo 21) \<and> In (ex_heap 4) = [e14]"
    by (simp add: ex_heap_def e14_def)
  show ?thesis using g r i t1 t2 by simp
qed

text \<open>
  Claim C2. A node \<open>a\<close> that does not suppress, is not the root and has an incoming
  \<open>go\<close> edge is classified \<open>(true, false)\<close>, and a search that comes to it for the first
  time returns the stack as it is: no incoming edge of \<open>a\<close> is pushed, so its callers, the
  root among them, add nothing to the path. Hence whenever \<open>pathToRoot\<close> returns a path,
  no edge of the path is a \<open>go\<close> edge, and the node at which the path stops is one that
  \<open>end\<close> classifies \<open>(true, false)\<close>, not a dead end.
\<close>

theorem spawn_edge_is_boundary:
  "(\<not> suppresses h (h a) \<and> Some a \<noteq> root \<and> (\<exists>e\<in>set (In (h a)). \<exists>g. Site e = Some (PGo g)) \<longrightarrow>
      end' h ro root (Some a) = (True, False) \<and>
      (Some a \<notin> set seen \<longrightarrow>
         search (Suc fuel) h ro root (Some a) (stack, seen) = Inr (Some stack, (stack, Some a # seen)))) \<and>
   (pathToRoot fuel' h ro p cg = Inr (Some w) \<longrightarrow>
      (\<forall>e\<in>set w. \<forall>g. Site e \<noteq> Some (PGo g)) \<and>
      end' h ro (Root cg) (stops_at (Nodes cg (Parent p)) w) = (True, False))"
proof (intro conjI impI)
  assume h: "\<not> suppresses h (h a) \<and> Some a \<noteq> root \<and> (\<exists>e\<in>set (In (h a)). \<exists>g. Site e = Some (PGo g))"
  then show e: "end' h ro root (Some a) = (True, False)"
    by (simp add: end'_unsuppressed range_In_go_iff)
  assume "Some a \<notin> set seen"
  with e show "search (Suc fuel) h ro root (Some a) (stack, seen) = Inr (Some stack, (stack, Some a # seen))"
    by simp
next
  assume p: "pathToRoot fuel' h ro p cg = Inr (Some w)"
  then obtain st' where "search fuel' h ro (Root cg) (Nodes cg (Parent p)) ([], []) = Inr (Some w, st')"
    by (auto simp: pathToRoot_def split: sum.splits)
  then have w: "walk h ro (Root cg) (Nodes cg (Parent p)) w"
    using search_found_walk by fastforce
  show "\<forall>e\<in>set w. \<forall>g. Site e \<noteq> Some (PGo g)"
    using walk_no_go[OF w] by blast
  show "end' h ro (Root cg) (stops_at (Nodes cg (Parent p)) w) = (True, False)"
    using w by (rule walk_stops_at)
qed

theorem spawn_edge_is_boundary_witness:
  "e12 \<in> set (In (ex_heap 2)) \<and> Site e12 = Some (PGo 20) \<and>
   end' ex_heap ex_ro (Some 0) (Some 2) = (True, False) \<and>
   search (Suc 0) ex_heap ex_ro (Some 0) (Some 2) ([e36, e23], [Some 3, Some 6]) =
     Inr (Some [e36, e23], ([e36, e23], [Some 2, Some 3, Some 6])) \<and>
   pathToRoot 9 ex_heap ex_ro \<lparr>Parent = 106, Pos = 6\<rparr> ex_cg = Inr (Some [e36, e23]) \<and>
   Site e36 = Some (PCall 26) \<and> Site e23 = Some (PCall 22) \<and>
   stops_at (Nodes ex_cg 106) [e36, e23] = Some 2"
proof -
  have u: "\<not> suppresses ex_heap (ex_heap 2)"
    by (simp add: suppresses_def defer_sites_def ex_defs)
  have i: "e12 \<in> set (In (ex_heap 2)) \<and> Site e12 = Some (PGo 20)" by (simp add: ex_defs)
  have p: "pathToRoot 9 ex_heap ex_ro \<lparr>Parent = 106, Pos = 6\<rparr> ex_cg = Inr (Some [e36, e23])"
    by (simp add: pathToRoot_def eval_nat_numeral end'_def ex_defs)
  have s: "Some 2 \<notin> set [Some 3, Some (6::nat)]" by simp
  have n: "stops_at (Nodes ex_cg 106) [e36, e23] = Some 2"
    by (simp add: ex_cg_def e36_def e23_def)
  have c: "Site e36 = Some (PCall 26) \<and> Site e23 = Some (PCall 22)"
    by (simp add: e36_def e23_def)
  have r: "Some 2 \<noteq> Some (0::nat)" by simp
  have x: "\<exists>e\<in>set (In (ex_heap 2)). \<exists>g. Site e = Some (PGo g)" using i by blast
  from spawn_edge_is_boundary[of ex_heap 2 "Some 0" ex_ro "[Some 3, Some 6]" 0 "[e36, e23]"
        9 "\<lparr>Parent = 106, Pos = 6\<rparr>" ex_cg "[e36, e23]"] u r x s
  have "end' ex_heap ex_ro (Some 0) (Some 2) = (True, False) \<and>
     search (Suc 0) ex_heap ex_ro (Some 0) (Some 2) ([e36, e23], [Some 3, Some 6]) =
       Inr (Some [e36, e23], ([e36, e23], [Some 2, Some 3, Some 6]))"
    by blast
  with i p n c show ?thesis by simp
qed

section \<open>The backward search\<close>

text \<open>
  Claim C3. Let \<open>U\<close> be a finite set of node pointers that holds the node of the raise
  site and, with every node, the callers of its incoming edges: a finite call graph, with
  or without cycles. Then a search whose recursion may go \<open>card U + 1\<close> calls deep, or
  deeper, returns: it neither runs out of depth nor panics. The keys of \<open>seen\<close> at the
  end, which are the nodes that were expanded, are pairwise distinct nodes of \<open>U\<close>, so
  every node is expanded at most once; and the search makes at most one call of \<open>search\<close>
  per incoming edge of a node of \<open>U\<close>, plus the first one. A call at a node that is in
  \<open>seen\<close> returns \<open>nil\<close> with \<open>stack\<close> and \<open>seen\<close> as they were, and is the only call
  it makes: it does so even when no further call is allowed.
\<close>

theorem search_terminates:
  assumes "finite U" and "closed_under_callers h U" and "Nodes cg (Parent p) \<in> U"
    and "card U < fuel"
  shows "(\<exists>found stack' seen'.
            search fuel h ro (Root cg) (Nodes cg (Parent p)) ([], []) = Inr (found, (stack', seen')) \<and>
            pathToRoot fuel h ro p cg = Inr found \<and>
            distinct seen' \<and> set seen' \<subseteq> U \<and> length seen' \<le> card U \<and>
            search_calls fuel h ro (Root cg) (Nodes cg (Parent p)) ([], [])
              \<le> 1 + (\<Sum>m\<in>U. indegree h m)) \<and>
         (\<forall>k root m stack seen. m \<in> set seen \<longrightarrow>
            search (Suc k) h ro root m (stack, seen) = Inr (None, (stack, seen)) \<and>
            search_calls (Suc k) h ro root m (stack, seen) = 1)"
proof (intro conjI allI impI)
  let ?n = "Nodes cg (Parent p)"
  have "card (U - set []) < fuel" using assms(4) by simp
  with search_returns[OF assms(1,2,3)] obtain r
    where r: "search fuel h ro (Root cg) ?n ([], []) = Inr r" by blast
  obtain found stack' seen' where rr: "r = (found, (stack', seen'))" by (cases r) auto
  have post: "search_post h ro (Root cg) ?n ([], []) (search fuel h ro (Root cg) ?n ([], []))"
    by (rule search_post)
  then have g: "grows [] seen'" by (simp add: r rr search_post_def)
  then have d: "distinct seen'" by (auto dest: grows_distinct)
  have sub: "set seen' \<subseteq> U"
    using search_seen_subset[OF assms(2,3) _ r] by (simp add: rr)
  have len: "length seen' \<le> card U"
    using d sub assms(1) by (metis card_mono distinct_card)
  have "search_calls fuel h ro (Root cg) ?n ([], []) \<le> 1 + new_indegrees h [] seen'"
    using search_calls_bound[OF r] by (simp add: rr)
  also have "new_indegrees h [] seen' = sum_list (map (indegree h) seen')"
    by (simp add: new_indegrees_def)
  also have "\<dots> \<le> (\<Sum>m\<in>U. indegree h m)"
    using assms(1) d sub by (rule sum_list_indegree_le)
  finally have calls: "search_calls fuel h ro (Root cg) ?n ([], []) \<le> 1 + (\<Sum>m\<in>U. indegree h m)"
    by simp
  show "\<exists>found stack' seen'.
            search fuel h ro (Root cg) ?n ([], []) = Inr (found, (stack', seen')) \<and>
            pathToRoot fuel h ro p cg = Inr found \<and>
            distinct seen' \<and> set seen' \<subseteq> U \<and> length seen' \<le> card U \<and>
            search_calls fuel h ro (Root cg) ?n ([], []) \<le> 1 + (\<Sum>m\<in>U. indegree h m)"
    using r rr d sub len calls pathToRoot_search[of fuel h ro cg p found "(stack', seen')"]
    by auto
next
  fix k root m stack seen
  assume "m \<in> set (seen :: addr option list)"
  then show "search (Suc k) h ro root m (stack, seen) = Inr (None, (stack, seen))"
    and "search_calls (Suc k) h ro root m (stack, seen) = 1"
    by simp_all
qed

theorem search_terminates_witness:
  "card ex_nodes = 9 \<and>
   (\<exists>found stack' seen'.
      search 10 ex_heap ex_ro (Root ex_cg) (Nodes ex_cg 103) ([], []) = Inr (found, (stack', seen')) \<and>
      pathToRoot 10 ex_heap ex_ro \<lparr>Parent = 103, Pos = 3\<rparr> ex_cg = Inr found \<and>
      distinct seen' \<and> set seen' \<subseteq> ex_nodes \<and> length seen' \<le> 9 \<and>
      search_calls 10 ex_heap ex_ro (Root ex_cg) (Nodes ex_cg 103) ([], [])
        \<le> 1 + (\<Sum>m\<in>ex_nodes. indegree ex_heap m)) \<and>
   search (Suc 0) ex_heap ex_ro (Some 0) (Some 3) ([e33], [Some 3]) = Inr (None, ([e33], [Some 3]))"
proof -
  have n: "Nodes ex_cg (Parent \<lparr>Parent = 103, Pos = 3\<rparr>) \<in> ex_nodes"
    by (simp add: ex_cg_def ex_nodes_def)
  have c: "card ex_nodes < 10" using ex_card by simp
  have f: "finite ex_nodes" using ex_card by simp
  have s: "Some 3 \<in> set [Some (3::nat)]" by simp
  from search_terminates[OF f ex_closed n c, of ex_ro] s ex_card show ?thesis
    by simp
qed


text \<open>
  Claim C5, run on the example: the raise site is in a function at address 199, for which
  \<open>cg.Nodes\<close> has no node. \<open>end\<close> returns \<open>(true, false)\<close> for the \<open>nil\<close> node and
  \<open>pathToRoot\<close> returns the stack, which is not \<open>nil\<close> but is empty; the loop of \<open>main\<close>
  tests \<open>len(path) != 0\<close> and so prints nothing for this raise site.
\<close>

theorem unresolved_raise_not_reported:
  "Nodes ex_cg (Parent \<lparr>Parent = 199, Pos = 9\<rparr>) = None \<and>
   end' ex_heap ex_ro (Root ex_cg) (Nodes ex_cg (Parent \<lparr>Parent = 199, Pos = 9\<rparr>)) = (True, False) \<and>
   pathToRoot 10 ex_heap ex_ro \<lparr>Parent = 199, Pos = 9\<rparr> ex_cg = Inr (Some []) \<and>
   range_panics 10 ex_heap ex_ro ex_cg [\<lparr>Parent = 199, Pos = 9\<rparr>] = Inr []"
proof -
  have n: "Nodes ex_cg (Parent \<lparr>Parent = 199, Pos = 9\<rparr>) = None" by (simp add: ex_cg_def)
  then have e: "end' ex_heap ex_ro (Root ex_cg) (Nodes ex_cg (Parent \<lparr>Parent = 199, Pos = 9\<rparr>)) = (True, False)"
    by (simp add: end'_nil)
  have "pathToRoot (Suc 9) ex_heap ex_ro \<lparr>Parent = 199, Pos = 9\<rparr> ex_cg = Inr (Some [])"
    using e by (rule pathToRoot_boundary_at_raise_site)
  moreover have "range_panics (Suc 9) ex_heap ex_ro ex_cg [\<lparr>Parent = 199, Pos = 9\<rparr>] = Inr []"
    using e by (rule range_panics_boundary_at_raise_site)
  ultimately show ?thesis using n e by simp
qed

section \<open>The suppression detector and the raise locator\<close>

text \<open>
  Claim C6. \<open>hasRecover f\<close> is true exactly when some block of \<open>f\<close> has, at some
  position, a \<open>Call\<close> instruction whose value is the built-in named \<open>recover\<close>. Nothing
  else about the block or the position matters: not what comes before or after the call,
  nor whether the block can be reached. The result is always a boolean.
\<close>

theorem hasRecover_flow_insensitive:
  "hasRecover f \<longleftrightarrow>
     (\<exists>j k. j < length (Blocks f) \<and> k < length (Instrs (Blocks f ! j)) \<and>
            Instrs (Blocks f ! j) ! k = Call (Builtin ''recover''))"
  unfolding hasRecover_def hasRecover_blocks_iff by (metis in_set_conv_nth)

theorem hasRecover_flow_insensitive_witness:
  "Instrs (Blocks ex_late_recover ! 1) ! 1 = Call (Builtin ''recover'') \<and>
   Instrs (Blocks ex_late_recover ! 1) ! 0 = Panic \<lparr>Parent = 110, Pos = 5\<rparr> \<and>
   hasRecover ex_late_recover \<and> \<not> hasRecover (Func (ex_heap 3))"
proof -
  have a: "Instrs (Blocks ex_late_recover ! 1) ! 1 = Call (Builtin ''recover'') \<and>
    Instrs (Blocks ex_late_recover ! 1) ! 0 = Panic \<lparr>Parent = 110, Pos = 5\<rparr>"
    by (simp add: ex_late_recover_def)
  have l: "(1::nat) < length (Blocks ex_late_recover) \<and>
    (1::nat) < length (Instrs (Blocks ex_late_recover ! 1))"
    by (simp add: ex_late_recover_def)
  have y: "hasRecover ex_late_recover"
    using hasRecover_flow_insensitive[of ex_late_recover] a l by blast
  have "\<not> (\<exists>j k. j < length (Blocks (Func (ex_heap 3))) \<and>
          k < length (Instrs (Blocks (Func (ex_heap 3)) ! j)) \<and>
          Instrs (Blocks (Func (ex_heap 3)) ! j) ! k = Call (Builtin ''recover''))"
    by (auto simp: ex_heap_def fn_def nth_Cons split: nat.splits)
  then have n: "\<not> hasRecover (Func (ex_heap 3))"
    using hasRecover_flow_insensitive[of "Func (ex_heap 3)"] by blast
  from a y n show ?thesis by simp
qed

section \<open>Determinism\<close>

text \<open>
  Claim C7. Two runs on the same call graph and raise site may differ in the order in
  which \<open>range\<close> enumerates the keys of each \<open>defers\<close> map, and in nothing else. Whatever
  these orders are, \<open>end\<close> gives the same pair for every node, and \<open>pathToRoot\<close> gives
  the same result, at the same depth limit and also whenever both runs return at all.
\<close>

theorem search_deterministic:
  assumes "\<forall>a. enumerates_defers h ro1 a" and "\<forall>a. enumerates_defers h ro2 a"
  shows "end' h ro1 root n = end' h ro2 root n \<and>
         pathToRoot fuel h ro1 p cg = pathToRoot fuel h ro2 p cg \<and>
         (\<forall>k1 k2 r1 r2. pathToRoot k1 h ro1 p cg = Inr r1 \<and> pathToRoot k2 h ro2 p cg = Inr r2
            \<longrightarrow> r1 = r2)"
proof (intro conjI allI impI)
  show "end' h ro1 root n = end' h ro2 root n"
    using assms by (cases n) (simp_all add: end'_nil end'_order_independent)
  have s: "search k h ro1 r m st = search k h ro2 r m st" for k r m st
    using assms by (intro search_order_independent) auto
  show eq: "pathToRoot k h ro1 p cg = pathToRoot k h ro2 p cg" for k
    by (simp add: pathToRoot_def s)
  fix k1 k2 r1 r2
  assume a: "pathToRoot k1 h ro1 p cg = Inr r1 \<and> pathToRoot k2 h ro2 p cg = Inr r2"
  then have "pathToRoot (max k1 k2) h ro1 p cg = Inr r1"
    by (auto intro: pathToRoot_fuel_mono)
  moreover from a have "pathToRoot (max k1 k2) h ro2 p cg = Inr r2"
    by (auto intro: pathToRoot_fuel_mono)
  ultimately show "r1 = r2" using eq[of "max k1 k2"] by simp
qed

theorem search_deterministic_witness:
  "ex_ro 4 = [30, 31] \<and> ex_ro' 4 = [31, 30] \<and>
   end' ex_heap ex_ro (Some 0) (Some 4) = end' ex_heap ex_ro' (Some 0) (Some 4) \<and>
   pathToRoot 10 ex_heap ex_ro \<lparr>Parent = 104, Pos = 4\<rparr> ex_cg =
     pathToRoot 10 ex_heap ex_ro' \<lparr>Parent = 104, Pos = 4\<rparr> ex_cg \<and>
   pathToRoot 10 ex_heap ex_ro \<lparr>Parent = 104, Pos = 4\<rparr> ex_cg = Inr None"
proof -
  have a: "\<forall>a. enumerates_defers ex_heap ex_ro a" using ex_enumerates by blast
  have b: "\<forall>a. enumerates_defers ex_heap ex_ro' a" using ex_enumerates' by blast
  have o: "ex_ro 4 = [30, 31] \<and> ex_ro' 4 = [31, 30]" by (simp add: ex_ro_def ex_ro'_def)
  have v: "pathToRoot 10 ex_heap ex_ro \<lparr>Parent = 104, Pos = 4\<rparr> ex_cg = Inr None"
    by (simp add: pathToRoot_def eval_nat_numeral end'_def hasRecover_def ex_defs)
  from search_deterministic[OF a b, of "Some 0" "Some 4" 10 "\<lparr>Parent = 104, Pos = 4\<rparr>" ex_cg] o v
  show ?thesis by simp
qed

text \<open>
  Claim C8. \<open>findPanics\<close> returns every \<open>Panic\<close> instruction of every block of every
  function it is given, as often as it occurs there, and nothing else: nothing is filtered
  out and no duplicate is removed. It is a function of the program model to a list, so the
  model is left as it was.
\<close>

theorem findPanics_exact:
  "count_list (findPanics fs) p =
     (\<Sum>f\<leftarrow>fs. \<Sum>b\<leftarrow>Blocks f. count_list (Instrs b) (Panic p)) \<and>
   set (findPanics fs) = {q. \<exists>f\<in>set fs. \<exists>b\<in>set (Blocks f). Panic q \<in> set (Instrs b)}"
  using findPanics_count[of fs p] findPanics_set[of fs] by simp

theorem findPanics_exact_witness:
  "findPanics [ex_late_recover, Func (ex_heap 6), ex_late_recover] =
     [\<lparr>Parent = 110, Pos = 2\<rparr>, \<lparr>Parent = 110, Pos = 5\<rparr>, \<lparr>Parent = 106, Pos = 6\<rparr>,
      \<lparr>Parent = 110, Pos = 2\<rparr>, \<lparr>Parent = 110, Pos = 5\<rparr>] \<and>
   count_list (findPanics [ex_late_recover, Func (ex_heap 6), ex_late_recover]) \<lparr>Parent = 110, Pos = 5\<rparr> = 2"
proof -
  have v: "findPanics [ex_late_recover, Func (ex_heap 6), ex_late_recover] =
     [\<lparr>Parent = 110, Pos = 2\<rparr>, \<lparr>Parent = 110, Pos = 5\<rparr>, \<lparr>Parent = 106, Pos = 6\<rparr>,
      \<lparr>Parent = 110, Pos = 2\<rparr>, \<lparr>Parent = 110, Pos = 5\<rparr>]"
    by (simp add: findPanics_def ex_late_recover_def ex_heap_def fn_def)
  have s: "(\<Sum>f\<leftarrow>[ex_late_recover, Func (ex_heap 6), ex_late_recover].
             \<Sum>b\<leftarrow>Blocks f. count_list (Instrs b) (Panic \<lparr>Parent = 110, Pos = 5\<rparr>)) = 2"
    by (simp add: ex_late_recover_def ex_heap_def fn_def)
  from findPanics_exact[of "[ex_late_recover, Func (ex_heap 6), ex_late_recover]" "\<lparr>Parent = 110, Pos = 5\<rparr>"] s
  have "count_list (findPanics [ex_late_recover, Func (ex_heap 6), ex_late_recover]) \<lparr>Parent = 110, Pos = 5\<rparr> = 2"
    by simp
  with v show ?thesis by blast
qed

section \<open>The shape of a witness path\<close>

text \<open>
  Claim C9. In a call graph whose \<open>In\<close> lists hold the edges that enter the node, a path
  that \<open>pathToRoot\<close> returns is a backward chain: if it is not empty, the callee of its
  first edge is the node of the function of the raise site, and the callee of every later
  edge is the caller of the edge before it.
\<close>

theorem witness_is_backward_chain:
  assumes "\<forall>a. \<forall>e\<in>set (In (h a)). Callee e = a"
    and "pathToRoot fuel h ro p cg = Inr (Some w)"
  shows "(w \<noteq> [] \<longrightarrow> Nodes cg (Parent p) = Some (Callee (w ! 0))) \<and>
         (\<forall>i. Suc i < length w \<longrightarrow> Some (Callee (w ! Suc i)) = Caller (w ! i))"
proof -
  from assms(2) obtain st' where "search fuel h ro (Root cg) (Nodes cg (Parent p)) ([], []) = Inr (Some w, st')"
    by (auto simp: pathToRoot_def split: sum.splits)
  then have w: "walk h ro (Root cg) (Nodes cg (Parent p)) w"
    using search_found_walk by fastforce
  have wf: "\<And>a e. e \<in> set (In (h a)) \<Longrightarrow> Callee e = a" using assms(1) by blast
  from walk_chain[of h ro "Root cg" "Nodes cg (Parent p)" w, OF wf w] show ?thesis
    by auto
qed

theorem witness_is_backward_chain_witness:
  "pathToRoot 10 ex_heap ex_ro \<lparr>Parent = 106, Pos = 6\<rparr> ex_cg = Inr (Some [e36, e23]) \<and>
   Nodes ex_cg 106 = Some (Callee e36) \<and> Some (Callee e23) = Caller e36"
proof -
  have p: "pathToRoot 10 ex_heap ex_ro \<lparr>Parent = 106, Pos = 6\<rparr> ex_cg = Inr (Some [e36, e23])"
    by (simp add: pathToRoot_def eval_nat_numeral end'_def ex_defs)
  from witness_is_backward_chain[OF ex_In_Callee p] have
    "Nodes ex_cg (Parent \<lparr>Parent = 106, Pos = 6\<rparr>) = Some (Callee ([e36, e23] ! 0)) \<and>
     Some (Callee ([e36, e23] ! Suc 0)) = Caller ([e36, e23] ! 0)"
    by simp
  with p show ?thesis by simp
qed

section \<open>Deferred and spawned calls of recover\<close>

text \<open>
  Claim C10. If no block of \<open>f\<close> has a plain \<open>Call\<close> of the built-in \<open>recover\<close>, then
  \<open>hasRecover f\<close> is false, whatever \<open>Defer\<close> and \<open>Go\<close> instructions call \<open>recover\<close> in
  \<open>f\<close>. So \<open>allrecovers\<close> is false for every group that holds a node of \<open>f\<close>, and a
  node all of whose deferred-call groups hold a node of \<open>f\<close> is not a dead end.
\<close>

theorem hasRecover_ignores_defer_and_go:
  assumes "\<forall>b\<in>set (Blocks f). Call (Builtin ''recover'') \<notin> set (Instrs b)"
  shows "\<not> hasRecover f \<and>
         (\<forall>h c e. Func (h c) = f \<and> c \<in> set e \<longrightarrow> \<not> allrecovers h e) \<and>
         (\<forall>h ro root a c.
            Func (h c) = f \<and> (\<forall>dn. defer_group (h a) dn \<noteq> [] \<longrightarrow> c \<in> set (defer_group (h a) dn))
            \<longrightarrow> \<not> snd (end' h ro root (Some a)))"
proof (intro conjI allI impI)
  show n: "\<not> hasRecover f" using assms by (simp add: hasRecover_def hasRecover_blocks_iff)
  show "\<not> allrecovers h e" if "Func (h c) = f \<and> c \<in> set e" for h c e
    using that n by (auto simp: allrecovers_iff)
  show "\<not> snd (end' h ro root (Some a))"
    if t: "Func (h c) = f \<and> (\<forall>dn. defer_group (h a) dn \<noteq> [] \<longrightarrow> c \<in> set (defer_group (h a) dn))"
    for h ro root a c
  proof
    assume "snd (end' h ro root (Some a))"
    then have "suppresses h (h a)" by (rule end'_deadend_suppresses)
    then obtain dn where "defer_group (h a) dn \<noteq> []"
      and "\<forall>c\<in>set (defer_group (h a) dn). hasRecover (Func (h c))"
      by (auto simp: suppresses_iff)
    with t n show False by auto
  qed
qed

theorem hasRecover_ignores_defer_and_go_witness:
  "Blocks (Func (ex_heap 7)) = [\<lparr>Instrs = [Defer (Builtin ''recover'')]\<rparr>] \<and>
   \<not> hasRecover (Func (ex_heap 7)) \<and> \<not> allrecovers ex_heap [7] \<and>
   defer_group (ex_heap 8) 32 = [7] \<and>
   end' ex_heap ex_ro (Some 0) (Some 8) = (False, False)"
proof -
  have b: "Blocks (Func (ex_heap 7)) = [\<lparr>Instrs = [Defer (Builtin ''recover'')]\<rparr>]"
    by (simp add: ex_heap_def fn_def)
  then have a: "\<forall>b\<in>set (Blocks (Func (ex_heap 7))). Call (Builtin ''recover'') \<notin> set (Instrs b)"
    by simp
  have g: "defer_group (ex_heap 8) dn = (if dn = 32 then [7] else [])" for dn
    by (simp add: defer_group_def ex_heap_def e87_def)
  have m: "\<forall>dn. defer_group (ex_heap 8) dn \<noteq> [] \<longrightarrow> 7 \<in> set (defer_group (ex_heap 8) dn)"
    by (simp add: g)
  have i: "(7::nat) \<in> set [7]" by simp
  note t = hasRecover_ignores_defer_and_go[OF a]
  from t have t1: "\<not> hasRecover (Func (ex_heap 7))" by blast
  from t i have t2: "\<not> allrecovers ex_heap [7]" by blast
  from t m have t3: "\<not> snd (end' ex_heap ex_ro (Some 0) (Some 8))" by blast
  have "fst (end' ex_heap ex_ro (Some 0) (Some 8)) = False"
    by (simp add: end'_def ex_defs hasRecover_def)
  with t3 have e: "end' ex_heap ex_ro (Some 0) (Some 8) = (False, False)"
    by (cases "end' ex_heap ex_ro (Some 0) (Some 8)") simp
  from b t1 t2 e g[of 32] show ?thesis by simp
qed

end
